theory Spec2Isabelle
  imports Complex_Main "HOL-Library.Sublist"
begin

section \<open>Errors and arrays\<close>

text \<open>
  The exceptions of the source are values.  \<open>ExternalError\<close> stands for whatever an
  external collaborator (dimensionality reduction, clustering) raises.
\<close>

datatype error = ValueError | IndexError | AssertionError | ExternalError

text \<open>
  A numpy array is its shape and its elements in row-major order; an array that exists
  has as many elements as its shape says.
\<close>

record 'a array3 =
  dim0 :: nat
  dim1 :: nat
  dim2 :: nat
  elems :: "'a list"

record 'a array2 =
  nrows :: nat
  ncols :: nat
  cells :: "'a list"

definition at3 :: "'a array3 \<Rightarrow> nat \<Rightarrow> nat \<Rightarrow> nat \<Rightarrow> 'a" where
  "at3 a i j k = elems a ! ((i * dim1 a + j) * dim2 a + k)"

text \<open>\<open>np.nonzero(labels == u)[0]\<close>: the positions that carry the label \<open>u\<close>, ascending.\<close>

definition nonzero_eq :: "int list \<Rightarrow> int \<Rightarrow> nat list" where
  "nonzero_eq labels u = filter (\<lambda>i. labels ! i = u) [0..<length labels]"

text \<open>\<open>xs[inds]\<close> for an index array: IndexError when an index is out of range.\<close>

definition take_inds :: "'a list \<Rightarrow> nat list \<Rightarrow> error + 'a list" where
  "take_inds xs inds =
     (if list_all (\<lambda>i. i < length xs) inds then Inr (map (nth xs) inds) else Inl IndexError)"

text \<open>\<open>xs[inds] = vals\<close> for an index array and as many values.\<close>

definition put_inds :: "'a list \<Rightarrow> nat list \<Rightarrow> 'a list \<Rightarrow> error + 'a list" where
  "put_inds xs inds vals =
     (if list_all (\<lambda>i. i < length xs) inds
      then Inr (fold (\<lambda>(i, v) ys. ys[i := v]) (zip inds vals) xs)
      else Inl IndexError)"

text \<open>A loop whose body may raise: the first error ends it.\<close>

fun fold_err :: "('a \<Rightarrow> 's \<Rightarrow> error + 's) \<Rightarrow> 'a list \<Rightarrow> 's \<Rightarrow> error + 's" where
  "fold_err f [] s = Inr s"
| "fold_err f (x # xs) s = (case f x s of Inl e \<Rightarrow> Inl e | Inr s' \<Rightarrow> fold_err f xs s')"

section \<open>Duplicate suppression: \<open>find_duplicate_times\<close>\<close>

text \<open>
  Source: \<open>core/pairwise_merge_step.py\<close>, lines 78-88.  The event times are sample
  indices; they are modelled as unbounded integers (the 64-bit range of the arrays is
  never approached by sample counts).  The list of times is called \<open>ts\<close>, and an
  index into it is a natural number.

  The inner \<open>while\<close> loop of one anchor \<open>i1\<close>: the running index \<open>i2\<close>, the
  returned list \<open>ret\<close> and the array \<open>deleted\<close> are the loop state.
\<close>

function while_dup ::
  "int list \<Rightarrow> int \<Rightarrow> nat \<Rightarrow> nat \<Rightarrow> nat list \<times> bool list \<Rightarrow> nat list \<times> bool list" where
  "while_dup ts tol i1 i2 (ret, deleted) =
     (if i2 < length ts \<and> ts ! i2 \<le> ts ! i1 + tol
      then while_dup ts tol i1 (i2 + 1) (ret @ [i2], deleted[i2 := True])
      else (ret, deleted))"
  by pat_completeness auto
termination
  by (relation "measure (\<lambda>(ts, tol, i1, i2, s). length ts - i2)") auto

declare while_dup.simps [simp del]

text \<open>The body of the outer \<open>for i1 in range(len(times))\<close> loop.\<close>

definition dup_body :: "int list \<Rightarrow> int \<Rightarrow> nat \<Rightarrow> nat list \<times> bool list \<Rightarrow> nat list \<times> bool list" where
  "dup_body ts tol i1 s =
     (if \<not> snd s ! i1 then while_dup ts tol i1 (i1 + 1) s else s)"

definition find_duplicate_times :: "int list \<Rightarrow> int \<Rightarrow> nat list" where
  "find_duplicate_times ts tol =
     fst (fold (dup_body ts tol) [0..<length ts] ([], replicate (length ts) False))"

text \<open>
  The events that survive: the caller sets the label of every returned index to 0 and
  then drops the events labelled 0, so the kept times are those at the indices that
  were not returned, in their order.
\<close>

definition kept_times :: "int list \<Rightarrow> int \<Rightarrow> int list" where
  "kept_times ts tol =
     map (nth ts) (filter (\<lambda>k. k \<notin> set (find_duplicate_times ts tol)) [0..<length ts])"

text \<open>
  Two auxiliary functions for the proofs (they are not in the source).  \<open>run_end\<close> is the
  index at which the \<open>while\<close> loop of anchor \<open>i1\<close>, started at \<open>i2\<close>, stops;
  \<open>dup_runs\<close> lists the indices removed from anchor \<open>i1\<close> onwards, one run per anchor.
\<close>

function run_end :: "int list \<Rightarrow> int \<Rightarrow> nat \<Rightarrow> nat \<Rightarrow> nat" where
  "run_end ts tol i1 i2 =
     (if i2 < length ts \<and> ts ! i2 \<le> ts ! i1 + tol
      then run_end ts tol i1 (i2 + 1) else i2)"
  by pat_completeness auto
termination
  by (relation "measure (\<lambda>(ts, tol, i1, i2). length ts - i2)") auto

declare run_end.simps [simp del]

function dup_runs :: "int list \<Rightarrow> int \<Rightarrow> nat \<Rightarrow> nat list" where
  "dup_runs ts tol i1 =
     (if i1 < length ts
      then [i1 + 1..<run_end ts tol i1 (i1 + 1)] @ dup_runs ts tol (run_end ts tol i1 (i1 + 1))
      else [])"
  by pat_completeness auto
termination
proof (relation "measure (\<lambda>(ts, tol, i1). length ts - i1)")
  show "wf (measure (\<lambda>(ts, tol, i1). length ts - i1))" by simp
next
  fix ts :: "int list" and tol :: int and i1 :: nat
  assume lt: "i1 < length ts"
  have ge: "i2 \<le> run_end ts tol i1 i2" for i2
  proof (induction ts tol i1 i2 rule: run_end.induct)
    case (1 ts tol i1 i2)
    show ?case
    proof (cases "i2 < length ts \<and> ts ! i2 \<le> ts ! i1 + tol")
      case True
      with 1 have "i2 + 1 \<le> run_end ts tol i1 (i2 + 1)" by simp
      with True show ?thesis by (subst run_end.simps) simp
    next
      case False
      then show ?thesis by (subst run_end.simps) auto
    qed
  qed
  from lt ge[of "i1 + 1"]
  show "((ts, tol, run_end ts tol i1 (i1 + 1)), (ts, tol, i1))
      \<in> measure (\<lambda>(ts, tol, i1). length ts - i1)"
    by simp
qed

declare dup_runs.simps [simp del]

section \<open>The merge test: \<open>test_merge\<close> and \<open>offset_snippets\<close>\<close>

text \<open>
  Source: \<open>core/pairwise_merge_step.py\<close>, lines 90-108.  \<open>compute_pca_features\<close> and
  \<open>isosplit6\<close> are not part of the sources at hand; they are the parameters \<open>pca\<close> and
  \<open>isosplit\<close>, and each may raise.
\<close>

definition reshape2 :: "'a array3 \<Rightarrow> nat \<Rightarrow> nat \<Rightarrow> error + 'a array2" where
  "reshape2 a r c =
     (if dim0 a * dim1 a * dim2 a = r * c
      then Inr \<lparr>nrows = r, ncols = c, cells = elems a\<rparr>
      else Inl ValueError)"

definition concatenate0 :: "'a array2 \<Rightarrow> 'a array2 \<Rightarrow> error + 'a array2" where
  "concatenate0 v1 v2 =
     (if ncols v1 = ncols v2
      then Inr \<lparr>nrows = nrows v1 + nrows v2, ncols = ncols v1, cells = cells v1 @ cells v2\<rparr>
      else Inl ValueError)"

definition transpose2 :: "'a array2 \<Rightarrow> 'a array2" where
  "transpose2 f =
     \<lparr>nrows = ncols f, ncols = nrows f,
      cells = concat (map (\<lambda>c. map (\<lambda>r. cells f ! (r * ncols f + c)) [0..<nrows f]) [0..<ncols f])\<rparr>"

definition max_int_list :: "int list \<Rightarrow> int" where
  "max_int_list xs = fold max (tl xs) (hd xs)"

definition test_merge ::
  "('a array2 \<Rightarrow> nat \<Rightarrow> error + 'f array2) \<Rightarrow> ('f array2 \<Rightarrow> error + int list) \<Rightarrow>
   'a array3 \<Rightarrow> 'a array3 \<Rightarrow> error + bool" where
  "test_merge pca isosplit snippets1 snippets2 =
     (let L1 = dim0 snippets1; L2 = dim0 snippets2; T = dim1 snippets1; M = dim2 snippets1 in
      case reshape2 snippets1 L1 (T * M) of Inl e \<Rightarrow> Inl e | Inr V1 \<Rightarrow>
      (case reshape2 snippets2 L2 (T * M) of Inl e \<Rightarrow> Inl e | Inr V2 \<Rightarrow>
      (case concatenate0 V1 V2 of Inl e \<Rightarrow> Inl e | Inr Vall \<Rightarrow>
      (case pca Vall 12 of Inl e \<Rightarrow> Inl e | Inr features0 \<Rightarrow>
      (case isosplit (transpose2 features0) of Inl e \<Rightarrow> Inl e | Inr labels0 \<Rightarrow>
         if labels0 = [] then Inl ValueError else Inr (max_int_list labels0 = 1))))))"

text \<open>\<open>np.roll(snippets, shift=offset, axis=1)\<close>: a circular shift along the time axis.\<close>

definition offset_snippets :: "'a array3 \<Rightarrow> int \<Rightarrow> 'a array3" where
  "offset_snippets snippets off =
     snippets\<lparr>elems :=
       concat (map (\<lambda>l. concat (map (\<lambda>t. map (\<lambda>m.
           at3 snippets l (nat ((int t - off) mod int (dim1 snippets))) m)
         [0..<dim2 snippets]) [0..<dim1 snippets])) [0..<dim0 snippets])\<rparr>"

text \<open>\<open>snippets[mask]\<close> for a boolean mask over the first axis.\<close>

definition mask_select :: "'a array3 \<Rightarrow> bool list \<Rightarrow> error + 'a array3" where
  "mask_select a msk =
     (if length msk = dim0 a
      then (let sel = filter (\<lambda>l. msk ! l) [0..<dim0 a]; sz = dim1 a * dim2 a in
            Inr \<lparr>dim0 = length sel, dim1 = dim1 a, dim2 = dim2 a,
                 elems = concat (map (\<lambda>l. take sz (drop (l * sz) (elems a))) sel)\<rparr>)
      else Inl IndexError)"

section \<open>The pairwise merge step\<close>

text \<open>
  Source: \<open>core/pairwise_merge_step.py\<close>, lines 7-76.  Template amplitudes are modelled
  as real numbers: on finite floating-point values negation, absolute value, halving,
  maximum and comparison are the operations of the reals.
\<close>

definition rectify :: "int \<Rightarrow> real array3 \<Rightarrow> real array3" where
  "rectify detect_sign templates =
     (if detect_sign < 0 then templates\<lparr>elems := map uminus (elems templates)\<rparr>
      else if detect_sign > 0 then templates
      else templates\<lparr>elems := map abs (elems templates)\<rparr>)"

definition max_list :: "real list \<Rightarrow> real" where
  "max_list xs = fold max (tl xs) (hd xs)"

text \<open>\<open>np.argmax\<close>: the first index at which the maximum is attained.\<close>

definition argmax_list :: "real list \<Rightarrow> nat" where
  "argmax_list xs = length (takeWhile (\<lambda>x. x < max_list xs) xs)"

text \<open>Column \<open>m\<close> of the \<open>T \<times> M\<close> template of unit \<open>i\<close>.\<close>

definition channel_column :: "real array3 \<Rightarrow> nat \<Rightarrow> nat \<Rightarrow> real list" where
  "channel_column A i m = map (\<lambda>t. at3 A i t m) [0..<dim1 A]"

definition peak_values_on_channels :: "real array3 \<Rightarrow> real list list" where
  "peak_values_on_channels A =
     map (\<lambda>i. map (\<lambda>m. max_list (channel_column A i m)) [0..<dim2 A]) [0..<dim0 A]"

definition peak_channel_indices :: "real array3 \<Rightarrow> nat list" where
  "peak_channel_indices A =
     map (\<lambda>i. argmax_list (map (\<lambda>m. max_list (channel_column A i m)) [0..<dim2 A])) [0..<dim0 A]"

definition peak_time_indices_on_channels :: "real array3 \<Rightarrow> nat list list" where
  "peak_time_indices_on_channels A =
     map (\<lambda>i. map (\<lambda>m. argmax_list (channel_column A i m)) [0..<dim2 A]) [0..<dim0 A]"

text \<open>The peak summaries of all units, as the scan reads them.\<close>

record peaks =
  pk_channel :: "nat list"
  pk_values :: "real list list"
  pk_times :: "nat list list"

definition peaks_of :: "real array3 \<Rightarrow> peaks" where
  "peaks_of A = \<lparr>pk_channel = peak_channel_indices A,
                 pk_values = peak_values_on_channels A,
                 pk_times = peak_time_indices_on_channels A\<rparr>"

definition offset1_of :: "peaks \<Rightarrow> nat \<Rightarrow> nat \<Rightarrow> int" where
  "offset1_of p i1 i2 =
     int (pk_times p ! i2 ! (pk_channel p ! i1)) - int (pk_times p ! i1 ! (pk_channel p ! i1))"

definition offset2_of :: "peaks \<Rightarrow> nat \<Rightarrow> nat \<Rightarrow> int" where
  "offset2_of p i1 i2 =
     int (pk_times p ! i2 ! (pk_channel p ! i2)) - int (pk_times p ! i1 ! (pk_channel p ! i2))"

text \<open>The three nested tests of lines 31-33.\<close>

definition merge_candidate :: "peaks \<Rightarrow> nat \<Rightarrow> nat \<Rightarrow> bool" where
  "merge_candidate p i1 i2 =
     (if \<bar>offset1_of p i1 i2 - offset2_of p i1 i2\<bar> \<le> 4 then
        (if pk_values p ! i1 ! (pk_channel p ! i2) > 0.5 * (pk_values p ! i2 ! (pk_channel p ! i2)) then
           (if pk_values p ! i2 ! (pk_channel p ! i1) > 0.5 * (pk_values p ! i1 ! (pk_channel p ! i1))
            then True else False)
         else False)
      else False)"




record merge_record =
  unit_id1 :: int
  unit_id2 :: int
  offset :: int

text \<open>
  The state of the scan: the dictionary \<open>merges\<close>, the pairs on which the merge test
  has been called so far, and the exception that ended the scan, if any.
\<close>

record scan_state =
  merges :: "int \<rightharpoonup> merge_record"
  test_calls :: "(nat \<times> nat) list"
  raised :: "error option"

text \<open>
  The body of the inner loop (lines 29-41).  \<open>tst i1 i2 offset1\<close> is the call of the
  merge test of line 35.
\<close>

definition scan_body ::
  "(nat \<Rightarrow> nat \<Rightarrow> int \<Rightarrow> error + bool) \<Rightarrow> int list \<Rightarrow> peaks \<Rightarrow> nat \<Rightarrow> nat \<Rightarrow> scan_state \<Rightarrow> scan_state" where
  "scan_body tst unit_ids p i1 i2 s =
     (if raised s \<noteq> None then s
      else if merge_candidate p i1 i2 then
        (case tst i1 i2 (offset1_of p i1 i2) of
           Inl e \<Rightarrow> s\<lparr>test_calls := test_calls s @ [(i1, i2)], raised := Some e\<rparr>
         | Inr ok \<Rightarrow>
             if ok then
               s\<lparr>merges := (merges s)(unit_ids ! i1 \<mapsto>
                     \<lparr>unit_id1 = unit_ids ! i1, unit_id2 = unit_ids ! i2,
                      offset = offset1_of p i1 i2\<rparr>),
                 test_calls := test_calls s @ [(i1, i2)]\<rparr>
             else s\<lparr>test_calls := test_calls s @ [(i1, i2)]\<rparr>)
      else s)"

text \<open>The two nested \<open>for\<close> loops of lines 27-28: \<open>i1\<close> ascending, \<open>i2\<close> from \<open>i1 - 1\<close> down to 0.\<close>

definition scan_merges ::
  "(nat \<Rightarrow> nat \<Rightarrow> int \<Rightarrow> error + bool) \<Rightarrow> int list \<Rightarrow> peaks \<Rightarrow> nat \<Rightarrow> scan_state" where
  "scan_merges tst unit_ids p K =
     fold (\<lambda>i1. fold (scan_body tst unit_ids p i1) (rev [0..<i1])) [0..<K]
       \<lparr>merges = Map.empty, test_calls = [], raised = None\<rparr>"

text \<open>The pairs in the order the loops visit them.\<close>

definition pair_scan :: "nat \<Rightarrow> (nat \<times> nat) list" where
  "pair_scan K = concat (map (\<lambda>i1. map (\<lambda>i2. (i1, i2)) (rev [0..<i1])) [0..<K])"

text \<open>The merge test as line 35 calls it.\<close>

definition merge_test_call ::
  "('a array2 \<Rightarrow> nat \<Rightarrow> error + 'f array2) \<Rightarrow> ('f array2 \<Rightarrow> error + int list) \<Rightarrow>
   'a array3 \<Rightarrow> int list \<Rightarrow> int list \<Rightarrow> nat \<Rightarrow> nat \<Rightarrow> int \<Rightarrow> error + bool" where
  "merge_test_call pca isosplit snippets new_labels unit_ids i1 i2 offset1 =
     (if i1 < length unit_ids \<and> i2 < length unit_ids then
        (case mask_select snippets (map (\<lambda>l. l = unit_ids ! i1) new_labels) of
           Inl e \<Rightarrow> Inl e
         | Inr s1 \<Rightarrow>
            (case mask_select snippets (map (\<lambda>l. l = unit_ids ! i2) new_labels) of
               Inl e \<Rightarrow> Inl e
             | Inr s2 \<Rightarrow> test_merge pca isosplit (offset_snippets s1 offset1) s2))
      else Inl IndexError)"

text \<open>
  The application of the merges (lines 42-53), one unit id at a time over the reversed
  \<open>unit_ids\<close>; the state is the pair of arrays \<open>(new_times, new_labels)\<close>.
\<close>

definition apply_merge_step ::
  "(int \<rightharpoonup> merge_record) \<Rightarrow> int \<Rightarrow> int list \<times> int list \<Rightarrow> error + (int list \<times> int list)" where
  "apply_merge_step mrg unit_id s =
     (case mrg unit_id of
        None \<Rightarrow> Inr s
      | Some mm \<Rightarrow>
          if unit_id \<noteq> unit_id1 mm then Inl AssertionError
          else
            (let inds1 = nonzero_eq (snd s) (unit_id1 mm) in
             case take_inds (fst s) inds1 of Inl e \<Rightarrow> Inl e | Inr old \<Rightarrow>
             (case put_inds (fst s) inds1 (map (\<lambda>t. t + offset mm) old) of Inl e \<Rightarrow> Inl e | Inr nt \<Rightarrow>
             (case put_inds (snd s) inds1 (replicate (length inds1) (unit_id2 mm)) of
                Inl e \<Rightarrow> Inl e
              | Inr nl \<Rightarrow> Inr (nt, nl)))))"

definition apply_merges ::
  "(int \<rightharpoonup> merge_record) \<Rightarrow> int list \<Rightarrow> int list \<times> int list \<Rightarrow> error + (int list \<times> int list)" where
  "apply_merges mrg unit_ids s = fold_err (apply_merge_step mrg) (rev unit_ids) s"

text \<open>The removal of duplicates within one unit (lines 62-68).\<close>

definition dedup_unit :: "int list \<Rightarrow> int \<Rightarrow> int \<Rightarrow> int list \<Rightarrow> error + int list" where
  "dedup_unit new_times detect_time_radius unit_id new_labels =
     (let inds0 = nonzero_eq new_labels unit_id in
      if length inds0 > 0 then
        (case take_inds new_times inds0 of
           Inl e \<Rightarrow> Inl e
         | Inr times0 \<Rightarrow>
            (let duplicate_inds = find_duplicate_times times0 detect_time_radius in
             if length duplicate_inds > 0 then
               (case take_inds inds0 duplicate_inds of
                  Inl e \<Rightarrow> Inl e
                | Inr targets \<Rightarrow> put_inds new_labels targets (replicate (length targets) 0))
             else Inr new_labels))
      else Inr new_labels)"

text \<open>\<open>np.argsort\<close>: the indices in the order of their values.\<close>

definition argsort :: "int list \<Rightarrow> nat list" where
  "argsort xs = map snd (sort_key fst (zip xs [0..<length xs]))"

definition pairwise_merge_step ::
  "('a array2 \<Rightarrow> nat \<Rightarrow> error + 'f array2) \<Rightarrow> ('f array2 \<Rightarrow> error + int list) \<Rightarrow>
   'a array3 \<Rightarrow> real array3 \<Rightarrow> int list \<Rightarrow> int list \<Rightarrow> int \<Rightarrow> int list \<Rightarrow> int \<Rightarrow>
   error + (int list \<times> int list)" where
  "pairwise_merge_step pca isosplit snippets templates labels tms detect_sign unit_ids detect_time_radius =
     (let K = dim0 templates; A = rectify detect_sign templates in
      if K > 0 \<and> (dim1 A = 0 \<or> dim2 A = 0) then Inl ValueError
      else
        (let s = scan_merges (merge_test_call pca isosplit snippets labels unit_ids) unit_ids (peaks_of A) K in
         case raised s of
           Some e \<Rightarrow> Inl e
         | None \<Rightarrow>
            (case apply_merges (merges s) unit_ids (tms, labels) of Inl e \<Rightarrow> Inl e | Inr (nt, nl) \<Rightarrow>
            (let sort_inds = argsort nt in
             case take_inds nt sort_inds of Inl e \<Rightarrow> Inl e | Inr nt1 \<Rightarrow>
            (case take_inds nl sort_inds of Inl e \<Rightarrow> Inl e | Inr nl1 \<Rightarrow>
            (case fold_err (dedup_unit nt1 detect_time_radius) unit_ids nl1 of Inl e \<Rightarrow> Inl e | Inr nl2 \<Rightarrow>
            (let nonzero_inds = filter (\<lambda>i. nl2 ! i \<noteq> 0) [0..<length nl2] in
             case take_inds nt1 nonzero_inds of Inl e \<Rightarrow> Inl e | Inr nt3 \<Rightarrow>
            (case take_inds nl2 nonzero_inds of Inl e \<Rightarrow> Inl e | Inr nl3 \<Rightarrow> Inr (nt3, nl3)))))))))"

section \<open>The chunk planner: \<open>TimeChunk\<close> and \<open>get_time_chunks\<close>\<close>

text \<open>
  Source: \<open>schemes/sorting_scheme2.py\<close>, lines 174-201.  Python integers are unbounded,
  so every quantity is an \<open>int\<close>.  The attribute \<open>end\<close> of the class is the field
  \<open>end_pos\<close>.
\<close>

record TimeChunk =
  start :: int
  end_pos :: int
  padding_left :: int
  padding_right :: int
  total_size :: int

text \<open>The constructor of the class.\<close>

definition TimeChunk_init :: "int \<Rightarrow> int \<Rightarrow> int \<Rightarrow> int \<Rightarrow> TimeChunk" where
  "TimeChunk_init s e pl pr =
     \<lparr>start = s, end_pos = e, padding_left = pl, padding_right = pr,
      total_size = e - s + pl + pr\<rparr>"

text \<open>
  The \<open>while\<close> loop of \<open>get_time_chunks\<close>, with the loop variable \<open>start\<close> (here \<open>pos\<close>)
  and the list \<open>chunks\<close> as its state.  The loop need not end, so its result is an
  option: \<open>None\<close> is a run that never returns.
\<close>

partial_function (option) time_chunks_loop ::
  "int \<Rightarrow> int \<Rightarrow> int \<Rightarrow> int \<Rightarrow> TimeChunk list \<Rightarrow> TimeChunk list option" where
  "time_chunks_loop num_samples chunk_size padding pos chunks =
     (if pos < num_samples then
        (let e0 = pos + chunk_size;
             e = (if e0 > num_samples then num_samples else e0);
             pl = min padding pos;
             pr = min padding (num_samples - e)
         in time_chunks_loop num_samples chunk_size padding e
              (chunks @ [TimeChunk_init pos e pl pr]))
      else Some chunks)"

declare time_chunks_loop.simps [code]

definition get_time_chunks :: "int \<Rightarrow> int \<Rightarrow> int \<Rightarrow> TimeChunk list option" where
  "get_time_chunks num_samples chunk_size padding =
     time_chunks_loop num_samples chunk_size padding 0 []"

text \<open>
  The cores of a list of chunks tile the interval \<open>[a, b)\<close>: each core is non-empty and
  starts where the previous one ends, the first starts at \<open>a\<close> and the last ends at \<open>b\<close>
  (and there is no chunk when the interval is empty).
\<close>

fun tiles :: "TimeChunk list \<Rightarrow> int \<Rightarrow> int \<Rightarrow> bool" where
  "tiles [] a b = (b \<le> a)"
| "tiles (c # cs) a b = (start c = a \<and> a < end_pos c \<and> end_pos c \<le> b \<and> tiles cs (end_pos c) b)"

text \<open>No padded extent leaves \<open>[0, N)\<close>.\<close>

definition padding_clipped :: "int \<Rightarrow> TimeChunk \<Rightarrow> bool" where
  "padding_clipped N c = (padding_left c \<le> start c \<and> end_pos c + padding_right c \<le> N)"

section \<open>Auxiliary notions for the scan\<close>

text \<open>
  These are not in the source.  \<open>scan_step\<close> is the loop body on a pair of indices;
  a pair passes when it is a merge candidate and the merge test returns true on it;
  \<open>record_of\<close> is the dictionary entry that lines 37-41 write for a pair.
\<close>

definition scan_step ::
  "(nat \<Rightarrow> nat \<Rightarrow> int \<Rightarrow> error + bool) \<Rightarrow> int list \<Rightarrow> peaks \<Rightarrow> nat \<times> nat \<Rightarrow> scan_state \<Rightarrow> scan_state" where
  "scan_step tst unit_ids p pr s = scan_body tst unit_ids p (fst pr) (snd pr) s"

definition passes :: "(nat \<Rightarrow> nat \<Rightarrow> int \<Rightarrow> error + bool) \<Rightarrow> peaks \<Rightarrow> nat \<times> nat \<Rightarrow> bool" where
  "passes tst p pr =
     (merge_candidate p (fst pr) (snd pr) \<and>
      tst (fst pr) (snd pr) (offset1_of p (fst pr) (snd pr)) = Inr True)"

definition record_of :: "int list \<Rightarrow> peaks \<Rightarrow> nat \<times> nat \<Rightarrow> merge_record" where
  "record_of unit_ids p pr =
     \<lparr>unit_id1 = unit_ids ! fst pr, unit_id2 = unit_ids ! snd pr,
      offset = offset1_of p (fst pr) (snd pr)\<rparr>"

text \<open>
  Concrete inputs for the examples: three units with the same one-channel template; three
  units on two channels of which only the first and the third resemble each other; and
  a merge test that always succeeds.
\<close>

definition templates_alike :: "real array3" where
  "templates_alike = \<lparr>dim0 = 3, dim1 = 2, dim2 = 1, elems = [0, 5, 0, 5, 0, 5]\<rparr>"

definition templates_mixed :: "real array3" where
  "templates_mixed = \<lparr>dim0 = 3, dim1 = 3, dim2 = 2,
     elems = [0, 0, 6, 4, 0, 0,  0, 0, 1, 6, 0, 0,  0, 0, 0, 0, 6, 4]\<rparr>"

definition always_merge :: "nat \<Rightarrow> nat \<Rightarrow> int \<Rightarrow> error + bool" where
  "always_merge i1 i2 off = Inr True"

section \<open>Auxiliary notions for the application of merges\<close>






section \<open>Auxiliary notions for the merge test\<close>

text \<open>
  The matrix \<open>Vall\<close> of \<open>test_merge\<close>: the two batches, each snippet flattened to a row,
  one batch below the other.
\<close>

definition stacked :: "'a array3 \<Rightarrow> 'a array3 \<Rightarrow> 'a array2" where
  "stacked snippets1 snippets2 =
     \<lparr>nrows = dim0 snippets1 + dim0 snippets2, ncols = dim1 snippets1 * dim2 snippets1,
      cells = elems snippets1 @ elems snippets2\<rparr>"

text \<open>
  Concrete inputs for the examples.  The two external collaborators are parameters of
  \<open>test_merge\<close>; here are stand-ins for them: a reduction that refuses an input with fewer
  rows than components, a reduction that accepts every input (both hand the rows back
  as the features), and a clustering that puts every column into cluster 1.  The batch
  \<open>one_snippet\<close> holds a single snippet of one sample on one channel.
\<close>

definition pca_strict :: "real array2 \<Rightarrow> nat \<Rightarrow> error + real array2" where
  "pca_strict V npca = (if nrows V < npca then Inl ValueError else Inr V)"

definition pca_lenient :: "real array2 \<Rightarrow> nat \<Rightarrow> error + real array2" where
  "pca_lenient V npca = Inr V"

definition one_cluster :: "real array2 \<Rightarrow> error + int list" where
  "one_cluster X = Inr (replicate (ncols X) 1)"

definition one_snippet :: "real array3" where
  "one_snippet = \<lparr>dim0 = 1, dim1 = 1, dim2 = 1, elems = [0]\<rparr>"

section \<open>The chunk loop of \<open>sorting_scheme2\<close>\<close>








section \<open>Properties of \<open>find_duplicate_times\<close>\<close>

subsection \<open>Where the inner loop stops\<close>

lemma run_end_ge: "i2 \<le> run_end ts tol i1 i2"
proof (induction ts tol i1 i2 rule: run_end.induct)
  case (1 ts tol i1 i2)
  show ?case
  proof (cases "i2 < length ts \<and> ts ! i2 \<le> ts ! i1 + tol")
    case True
    with 1 have "i2 + 1 \<le> run_end ts tol i1 (i2 + 1)" by simp
    with True show ?thesis by (subst run_end.simps) simp
  next
    case False
    then show ?thesis by (subst run_end.simps) auto
  qed
qed

lemma run_end_le: "i2 \<le> length ts \<Longrightarrow> run_end ts tol i1 i2 \<le> length ts"
proof (induction ts tol i1 i2 rule: run_end.induct)
  case (1 ts tol i1 i2)
  show ?case
  proof (cases "i2 < length ts \<and> ts ! i2 \<le> ts ! i1 + tol")
    case True
    with 1 show ?thesis by (subst run_end.simps) simp
  next
    case False
    with 1(2) show ?thesis by (subst run_end.simps) auto
  qed
qed

lemma run_end_within:
  "i2 \<le> k \<Longrightarrow> k < run_end ts tol i1 i2 \<Longrightarrow> ts ! k \<le> ts ! i1 + tol"
proof (induction ts tol i1 i2 rule: run_end.induct)
  case (1 ts tol i1 i2)
  show ?case
  proof (cases "i2 < length ts \<and> ts ! i2 \<le> ts ! i1 + tol")
    case True
    show ?thesis
    proof (cases "k = i2")
      case True
      with \<open>i2 < length ts \<and> ts ! i2 \<le> ts ! i1 + tol\<close> show ?thesis by simp
    next
      case False
      with 1(2) have "i2 + 1 \<le> k" by simp
      moreover from 1(3) True have "k < run_end ts tol i1 (i2 + 1)"
        by (subst (asm) run_end.simps) simp
      ultimately show ?thesis using 1(1) True by simp
    qed
  next
    case False
    with 1(2,3) show ?thesis by (subst (asm) run_end.simps) auto
  qed
qed

lemma run_end_stop:
  "run_end ts tol i1 i2 < length ts \<Longrightarrow> ts ! i1 + tol < ts ! (run_end ts tol i1 i2)"
proof (induction ts tol i1 i2 rule: run_end.induct)
  case (1 ts tol i1 i2)
  show ?case
  proof (cases "i2 < length ts \<and> ts ! i2 \<le> ts ! i1 + tol")
    case True
    then have e: "run_end ts tol i1 i2 = run_end ts tol i1 (i2 + 1)"
      by (subst run_end.simps) simp
    with 1 True show ?thesis by simp
  next
    case False
    then have e: "run_end ts tol i1 i2 = i2"
      by (subst run_end.simps) auto
    with 1(2) False show ?thesis by auto
  qed
qed



subsection \<open>The loops compute the runs\<close>

lemma while_dup_eq:
  "i2 \<le> length ts \<Longrightarrow> length deleted = length ts \<Longrightarrow>
   while_dup ts tol i1 i2 (ret, deleted) =
     (ret @ [i2..<run_end ts tol i1 i2],
      map (\<lambda>k. (i2 \<le> k \<and> k < run_end ts tol i1 i2) \<or> deleted ! k) [0..<length ts])"
proof (induction ts tol i1 i2 "(ret, deleted)" arbitrary: ret deleted rule: while_dup.induct)
  case (1 ts tol i1 i2 ret deleted)
  show ?case
  proof (cases "i2 < length ts \<and> ts ! i2 \<le> ts ! i1 + tol")
    case True
    then have e: "run_end ts tol i1 i2 = run_end ts tol i1 (i2 + 1)"
      by (subst run_end.simps) simp
    have ge: "i2 + 1 \<le> run_end ts tol i1 (i2 + 1)" by (rule run_end_ge)
    have "while_dup ts tol i1 i2 (ret, deleted) =
          while_dup ts tol i1 (i2 + 1) (ret @ [i2], deleted[i2 := True])"
      using True by (subst while_dup.simps) simp
    also have "\<dots> = ((ret @ [i2]) @ [i2 + 1..<run_end ts tol i1 (i2 + 1)],
      map (\<lambda>k. (i2 + 1 \<le> k \<and> k < run_end ts tol i1 (i2 + 1)) \<or> deleted[i2 := True] ! k)
        [0..<length ts])"
      using 1 True by simp
    also have "(ret @ [i2]) @ [i2 + 1..<run_end ts tol i1 (i2 + 1)]
        = ret @ [i2..<run_end ts tol i1 i2]"
      using ge e by (simp add: upt_conv_Cons)
    also have "map (\<lambda>k. (i2 + 1 \<le> k \<and> k < run_end ts tol i1 (i2 + 1)) \<or> deleted[i2 := True] ! k)
          [0..<length ts]
        = map (\<lambda>k. (i2 \<le> k \<and> k < run_end ts tol i1 i2) \<or> deleted ! k) [0..<length ts]"
      using ge e 1(3) True by (auto simp: nth_list_update)
    finally show ?thesis .
  next
    case False
    then have e: "run_end ts tol i1 i2 = i2"
      by (subst run_end.simps) auto
    have m: "map (\<lambda>k. (i2 \<le> k \<and> k < i2) \<or> deleted ! k) [0..<length ts] = deleted"
      using 1(3) by (intro nth_equalityI) auto
    have "while_dup ts tol i1 i2 (ret, deleted) = (ret, deleted)"
      using False by (subst while_dup.simps) auto
    with e m show ?thesis by simp
  qed
qed

text \<open>
  The invariant of the outer loop: from \<open>i1\<close> on, exactly the indices below the next
  anchor \<open>F\<close> are marked deleted.
\<close>

lemma fold_dup_body:
  "i1 \<le> F \<Longrightarrow> F \<le> length ts \<Longrightarrow> length deleted = length ts \<Longrightarrow>
   (\<forall>k. i1 \<le> k \<and> k < length ts \<longrightarrow> deleted ! k = (k < F)) \<Longrightarrow>
   fst (fold (dup_body ts tol) [i1..<length ts] (ret, deleted)) = ret @ dup_runs ts tol F"
proof (induction "length ts - i1" arbitrary: i1 F ret deleted)
  case 0
  then have "i1 = length ts" "F = length ts" by simp_all
  then show ?case by (subst dup_runs.simps) simp
next
  case (Suc d)
  then have lt: "i1 < length ts" by simp
  then have upt: "[i1..<length ts] = i1 # [i1 + 1..<length ts]"
    by (simp add: upt_conv_Cons)
  have d: "d = length ts - (i1 + 1)" using Suc(2) by simp
  show ?case
  proof (cases "i1 < F")
    case True
    with Suc(6) lt have "deleted ! i1" by simp
    then have b: "dup_body ts tol i1 (ret, deleted) = (ret, deleted)"
      by (simp add: dup_body_def)
    have "fst (fold (dup_body ts tol) [i1 + 1..<length ts] (ret, deleted)) = ret @ dup_runs ts tol F"
      using Suc(1)[OF d, of F deleted ret] True Suc(4,5,6) by simp
    with upt b show ?thesis by simp
  next
    case False
    with Suc(3) have eq: "F = i1" by simp
    let ?j = "run_end ts tol i1 (i1 + 1)"
    let ?del = "map (\<lambda>k. (i1 + 1 \<le> k \<and> k < ?j) \<or> deleted ! k) [0..<length ts]"
    have ge: "i1 + 1 \<le> ?j" by (rule run_end_ge)
    have le: "?j \<le> length ts" using lt by (intro run_end_le) simp
    from Suc(6) lt eq have "\<not> deleted ! i1" by simp
    then have b: "dup_body ts tol i1 (ret, deleted) = (ret @ [i1 + 1..<?j], ?del)"
      using while_dup_eq[of "i1 + 1" ts deleted tol i1 ret] lt Suc(5)
      by (simp add: dup_body_def)
    have inv: "\<forall>k. i1 + 1 \<le> k \<and> k < length ts \<longrightarrow> ?del ! k = (k < ?j)"
      using Suc(6) eq by auto
    have "fst (fold (dup_body ts tol) [i1 + 1..<length ts] (ret @ [i1 + 1..<?j], ?del))
          = (ret @ [i1 + 1..<?j]) @ dup_runs ts tol ?j"
      using Suc(1)[OF d ge le _ inv] by simp
    moreover have "dup_runs ts tol F = [i1 + 1..<?j] @ dup_runs ts tol ?j"
      using lt eq by (subst dup_runs.simps) simp
    ultimately show ?thesis using upt b by simp
  qed
qed

lemma find_duplicate_times_runs: "find_duplicate_times ts tol = dup_runs ts tol 0"
  unfolding find_duplicate_times_def
  using fold_dup_body[of 0 0 ts "replicate (length ts) False" tol "[]"] by simp

subsection \<open>The returned indices\<close>

lemma dup_runs_bounds: "x \<in> set (dup_runs ts tol i) \<Longrightarrow> i < x \<and> x < length ts"
proof (induction ts tol i rule: dup_runs.induct)
  case (1 ts tol i1)
  let ?j = "run_end ts tol i1 (i1 + 1)"
  have lt: "i1 < length ts"
    using 1(2) by (subst (asm) dup_runs.simps) (auto split: if_splits)
  have ge: "i1 + 1 \<le> ?j" by (rule run_end_ge)
  have le: "?j \<le> length ts" using lt by (intro run_end_le) simp
  from 1(2) lt have "x \<in> set [i1 + 1..<?j] \<or> x \<in> set (dup_runs ts tol ?j)"
    by (subst (asm) dup_runs.simps) auto
  then show ?case
  proof
    assume "x \<in> set [i1 + 1..<?j]"
    with le show ?thesis by auto
  next
    assume "x \<in> set (dup_runs ts tol ?j)"
    with 1(1)[OF lt] have "?j < x \<and> x < length ts" by simp
    with ge show ?thesis by simp
  qed
qed

lemma dup_runs_sorted: "sorted_wrt (<) (dup_runs ts tol i)"
proof (induction ts tol i rule: dup_runs.induct)
  case (1 ts tol i1)
  let ?j = "run_end ts tol i1 (i1 + 1)"
  show ?case
  proof (cases "i1 < length ts")
    case True
    have "\<forall>x\<in>set [i1 + 1..<?j]. \<forall>y\<in>set (dup_runs ts tol ?j). x < y"
      using dup_runs_bounds[of _ ts tol ?j] by fastforce
    with 1[OF True] True show ?thesis
      by (subst dup_runs.simps) (simp add: sorted_wrt_append)
  next
    case False
    then show ?thesis by (subst dup_runs.simps) simp
  qed
qed

lemma dup_runs_chain_start:
  "sorted ts \<Longrightarrow> a \<le> i \<Longrightarrow> i < length ts \<Longrightarrow> (i = 0 \<or> ts ! (i - 1) + tol < ts ! i) \<Longrightarrow>
   i \<notin> set (dup_runs ts tol a)"
proof (induction ts tol a rule: dup_runs.induct)
  case (1 ts tol i1)
  let ?j = "run_end ts tol i1 (i1 + 1)"
  show ?case
  proof (cases "i = i1")
    case True
    then show ?thesis using dup_runs_bounds[of i ts tol i1] by auto
  next
    case False
    with 1(3) have lt: "i1 < i" by simp
    with 1(4) have lt1: "i1 < length ts" by simp
    from lt 1(5) have gap: "ts ! (i - 1) + tol < ts ! i" by simp
    have "\<not> i < ?j"
    proof
      assume "i < ?j"
      with lt have "ts ! i \<le> ts ! i1 + tol"
        using run_end_within[of "i1 + 1" i ts tol i1] by simp
      moreover have "ts ! i1 \<le> ts ! (i - 1)"
        using 1(2) lt 1(4) by (simp add: sorted_iff_nth_mono)
      ultimately show False using gap by simp
    qed
    then have ji: "?j \<le> i" by simp
    then have "i \<notin> set (dup_runs ts tol ?j)"
      using 1(1)[OF lt1 1(2) _ 1(4,5)] by simp
    moreover have "i \<notin> set [i1 + 1..<?j]" using ji by simp
    ultimately show ?thesis using lt1 by (subst dup_runs.simps) simp
  qed
qed

subsection \<open>The kept events\<close>

lemma kept_from:
  assumes lt: "i1 < length ts"
  shows "filter (\<lambda>k. k \<notin> set (dup_runs ts tol i1)) [i1..<length ts] =
   i1 # filter (\<lambda>k. k \<notin> set (dup_runs ts tol (run_end ts tol i1 (i1 + 1))))
          [run_end ts tol i1 (i1 + 1)..<length ts]"
proof -
  let ?j = "run_end ts tol i1 (i1 + 1)"
  have ge: "i1 + 1 \<le> ?j" by (rule run_end_ge)
  have le: "?j \<le> length ts" using lt by (intro run_end_le) simp
  have d: "dup_runs ts tol i1 = [i1 + 1..<?j] @ dup_runs ts tol ?j"
    using lt by (subst dup_runs.simps) simp
  have split: "[i1..<length ts] = i1 # [i1 + 1..<?j] @ [?j..<length ts]"
    using lt ge le by (metis upt_conv_Cons upt_add_eq_append le_Suc_ex Suc_eq_plus1)
  have a: "i1 \<notin> set (dup_runs ts tol i1)"
    using dup_runs_bounds[of i1 ts tol i1] by auto
  have b: "filter (\<lambda>k. k \<notin> set (dup_runs ts tol i1)) [i1 + 1..<?j] = []"
    by (auto simp: d filter_empty_conv)
  have c: "filter (\<lambda>k. k \<notin> set (dup_runs ts tol i1)) [?j..<length ts]
         = filter (\<lambda>k. k \<notin> set (dup_runs ts tol ?j)) [?j..<length ts]"
    by (rule filter_cong) (auto simp: d)
  show ?thesis
    using a b c by (subst split) (simp del: upt_Suc)
qed

text \<open>Consecutive kept events are more than \<open>tol\<close> apart, and the first one is the anchor.\<close>

lemma kept_gapped:
  "successively (\<lambda>x y. x + tol < y)
     (map (nth ts) (filter (\<lambda>k. k \<notin> set (dup_runs ts tol i1)) [i1..<length ts])) \<and>
   (i1 < length ts \<longrightarrow>
     hd (map (nth ts) (filter (\<lambda>k. k \<notin> set (dup_runs ts tol i1)) [i1..<length ts])) = ts ! i1)"
proof (induction ts tol i1 rule: dup_runs.induct)
  case (1 ts tol i1)
  let ?j = "run_end ts tol i1 (i1 + 1)"
  show ?case
  proof (cases "i1 < length ts")
    case True
    note IH = 1[OF True]
    let ?rest = "map (nth ts) (filter (\<lambda>k. k \<notin> set (dup_runs ts tol ?j)) [?j..<length ts])"
    have k: "map (nth ts) (filter (\<lambda>k. k \<notin> set (dup_runs ts tol i1)) [i1..<length ts])
        = ts ! i1 # ?rest"
      using kept_from[OF True, of tol] by simp
    have "?rest = [] \<or> ts ! i1 + tol < hd ?rest"
    proof (cases "?j < length ts")
      case True
      with IH have "hd ?rest = ts ! ?j" by simp
      with run_end_stop[OF True] show ?thesis by simp
    next
      case False
      then show ?thesis by simp
    qed
    with IH show ?thesis
      unfolding k by (auto simp: successively_Cons)
  next
    case False
    then show ?thesis by simp
  qed
qed

lemma gapped_no_dups:
  "successively (\<lambda>x y. x + tol < y) xs \<Longrightarrow> dup_runs xs tol a = []"
proof (induction xs tol a rule: dup_runs.induct)
  case (1 ts tol i1)
  show ?case
  proof (cases "i1 < length ts")
    case True
    have "run_end ts tol i1 (i1 + 1) = i1 + 1"
    proof (cases "i1 + 1 < length ts")
      case True
      with 1(2) have "ts ! i1 + tol < ts ! (i1 + 1)"
        by (simp add: successively_conv_nth)
      then show ?thesis by (subst run_end.simps) simp
    next
      case False
      then show ?thesis by (subst run_end.simps) simp
    qed
    with 1 True show ?thesis by (subst dup_runs.simps) simp
  next
    case False
    then show ?thesis by (subst dup_runs.simps) simp
  qed
qed

lemma find_duplicate_times_idem: "find_duplicate_times (kept_times ts tol) tol = []"
  using kept_gapped[of tol ts 0] gapped_no_dups[of tol "kept_times ts tol" 0]
  by (simp add: kept_times_def find_duplicate_times_runs)

lemma find_duplicate_times_bounds:
  "x \<in> set (find_duplicate_times ts tol) \<Longrightarrow> 0 < x \<and> x < length ts"
  using dup_runs_bounds[of x ts tol 0] by (simp add: find_duplicate_times_runs)

lemma find_duplicate_times_sorted: "sorted_wrt (<) (find_duplicate_times ts tol)"
  by (simp add: find_duplicate_times_runs dup_runs_sorted)

subsection \<open>The claims about \<open>find_duplicate_times\<close>\<close>

lemma dup_runs_anchor:
  "x \<in> set (dup_runs ts tol a) \<Longrightarrow>
   \<exists>b. a \<le> b \<and> b < x \<and> b \<notin> set (dup_runs ts tol a) \<and> ts ! x \<le> ts ! b + tol"
proof (induction ts tol a rule: dup_runs.induct)
  case (1 ts tol i1)
  let ?j = "run_end ts tol i1 (i1 + 1)"
  have lt: "i1 < length ts"
    using 1(2) by (subst (asm) dup_runs.simps) (auto split: if_splits)
  have d: "dup_runs ts tol i1 = [i1 + 1..<?j] @ dup_runs ts tol ?j"
    using lt by (subst dup_runs.simps) simp
  have ge: "i1 + 1 \<le> ?j" by (rule run_end_ge)
  from 1(2) d have "x \<in> set [i1 + 1..<?j] \<or> x \<in> set (dup_runs ts tol ?j)" by simp
  then show ?case
  proof
    assume x: "x \<in> set [i1 + 1..<?j]"
    then have "ts ! x \<le> ts ! i1 + tol"
      using run_end_within[of "i1 + 1" x ts tol i1] by simp
    moreover have "i1 \<notin> set (dup_runs ts tol i1)"
      using dup_runs_bounds[of i1 ts tol i1] by auto
    moreover have "i1 < x" using x by simp
    ultimately show ?thesis by blast
  next
    assume "x \<in> set (dup_runs ts tol ?j)"
    from 1(1)[OF lt this] obtain b where
      b: "?j \<le> b" "b < x" "b \<notin> set (dup_runs ts tol ?j)" "ts ! x \<le> ts ! b + tol"
      by blast
    from b(1) have "b \<notin> set [i1 + 1..<?j]" by simp
    with b(3) d have "b \<notin> set (dup_runs ts tol i1)" by simp
    moreover from b(1) ge have "i1 \<le> b" by simp
    ultimately show ?thesis using b(2,4) by blast
  qed
qed

lemma map_nth_filter_nths:
  "map (nth xs) (filter P [0..<length xs]) = nths xs {k. P k}"
proof (induction xs arbitrary: P rule: rev_induct)
  case Nil
  then show ?case by simp
next
  case (snoc x xs)
  have "map (nth (xs @ [x])) (filter P [0..<length xs]) = map (nth xs) (filter P [0..<length xs])"
    by (rule map_cong) (auto simp: nth_append)
  with snoc[of P] show ?case
    by (auto simp: nths_append nths_singleton)
qed

lemma kept_times_subseq: "subseq (kept_times ts tol) ts"
  unfolding kept_times_def map_nth_filter_nths subseq_conv_nths by blast

text \<open>
  Claim C10.  For every array of times and every tolerance, the list returned by
  \<open>find_duplicate_times\<close> is strictly increasing, has no repeated index, and each of
  its elements lies in \<open>[1, len(times))\<close>.  In the caller (lines 62-68), with
  \<open>inds0\<close> the positions of a unit and \<open>duplicate_inds\<close> the list returned for the
  times at these positions, the indexing \<open>inds0[duplicate_inds]\<close> does not raise, and the
  positions it yields are distinct, valid positions of \<open>new_labels\<close> that carry the
  label of the unit and lie after the first event of the unit.
\<close>

theorem find_duplicate_times_indices:
  "sorted_wrt (<) (find_duplicate_times ts tol) \<and>
   distinct (find_duplicate_times ts tol) \<and>
   (\<forall>i\<in>set (find_duplicate_times ts tol). 1 \<le> i \<and> i < length ts) \<and>
   (let inds0 = nonzero_eq new_labels unit_id;
        duplicate_inds = find_duplicate_times (map (nth new_times) inds0) tol
    in take_inds inds0 duplicate_inds = Inr (map (nth inds0) duplicate_inds) \<and>
       distinct (map (nth inds0) duplicate_inds) \<and>
       (\<forall>p\<in>set (map (nth inds0) duplicate_inds).
          p < length new_labels \<and> new_labels ! p = unit_id \<and> hd inds0 < p))"
proof -
  define inds0 where "inds0 = nonzero_eq new_labels unit_id"
  define d where "d = find_duplicate_times (map (nth new_times) inds0) tol"
  have s: "sorted_wrt (<) (find_duplicate_times ts tol)" for ts
    by (rule find_duplicate_times_sorted)
  have dist: "distinct (find_duplicate_times ts tol)" for ts
    using s[of ts] by (simp add: strict_sorted_iff)
  have b: "\<forall>i\<in>set (find_duplicate_times ts tol). 1 \<le> i \<and> i < length ts" for ts
    using find_duplicate_times_bounds[of _ ts tol] by fastforce
  have si: "sorted_wrt (<) inds0"
    unfolding inds0_def nonzero_eq_def by (simp add: sorted_wrt_filter)
  then have di: "distinct inds0" by (simp add: strict_sorted_iff)
  have mem: "p \<in> set inds0 \<Longrightarrow> p < length new_labels \<and> new_labels ! p = unit_id" for p
    unfolding inds0_def nonzero_eq_def by simp
  have db: "\<forall>i\<in>set d. 1 \<le> i \<and> i < length inds0"
    using b[of "map (nth new_times) inds0"] by (simp add: d_def)
  then have t: "take_inds inds0 d = Inr (map (nth inds0) d)"
    by (auto simp: take_inds_def list_all_iff)
  have "inj_on (nth inds0) (set d)"
    using db di by (auto simp: inj_on_def nth_eq_iff_index_eq)
  with dist[of "map (nth new_times) inds0"] have dm: "distinct (map (nth inds0) d)"
    by (simp add: distinct_map d_def)
  have "p < length new_labels \<and> new_labels ! p = unit_id \<and> hd inds0 < p"
    if "p \<in> set (map (nth inds0) d)" for p
  proof -
    from that obtain i where i: "i \<in> set d" "p = inds0 ! i" by auto
    with db have r: "1 \<le> i" "i < length inds0" by auto
    then have "inds0 ! 0 < inds0 ! i"
      using si sorted_wrt_nth_less[of "(<)" inds0 0 i] by simp
    moreover have "hd inds0 = inds0 ! 0" using r by (cases inds0) auto
    moreover have "p \<in> set inds0" using i r by simp
    ultimately show ?thesis using mem i by simp
  qed
  with s dist b t dm show ?thesis
    unfolding Let_def inds0_def[symmetric] d_def[symmetric] by blast
qed

text \<open>
  Witness for claim C10: the scenario of the specification (times 100, 103, 250 with
  tolerance 5), and a label array in which unit 1 occupies the positions 0, 2 and 3.
\<close>

theorem find_duplicate_times_indices_witness:
  "find_duplicate_times [100, 103, 250] 5 = [1] \<and>
   sorted_wrt (<) (find_duplicate_times [100, 103, 250] 5) \<and>
   distinct (find_duplicate_times [100, 103, 250] 5) \<and>
   nonzero_eq [1, 2, 1, 1] 1 = [0, 2, 3] \<and>
   take_inds (nonzero_eq [1, 2, 1, 1] 1)
     (find_duplicate_times (map (nth [100, 101, 103, 250]) (nonzero_eq [1, 2, 1, 1] 1)) 5) = Inr [2]"
proof -
  have a: "find_duplicate_times [100, 103, 250] 5 = [1]" by code_simp
  have b: "nonzero_eq [1, 2, 1, 1] 1 = [0, 2, 3]" by code_simp
  have c: "map (nth [100, 101, 103, 250 :: int]) [0, 2, 3] = [100, 103, 250]" by simp
  from find_duplicate_times_indices[of "[100, 103, 250]" 5 "[1, 2, 1, 1]" 1 "[100, 101, 103, 250]"]
  show ?thesis unfolding Let_def a b c by simp
qed

text \<open>
  Claim C9.  For a time-ascending sequence and a tolerance \<open>tol\<close>, the kept events are
  a subsequence of the input; the earliest event of every tolerance chain is kept (the
  first event, and every event that lies more than \<open>tol\<close> after its predecessor);
  every removed event lies within \<open>tol\<close> of an earlier kept event; and running
  \<open>find_duplicate_times\<close> on the kept events removes nothing.
\<close>

theorem find_duplicate_times_kept:
  assumes "sorted ts"
  shows "subseq (kept_times ts tol) ts \<and>
     (\<forall>i<length ts. (i = 0 \<or> ts ! (i - 1) + tol < ts ! i) \<longrightarrow> i \<notin> set (find_duplicate_times ts tol)) \<and>
     (\<forall>i\<in>set (find_duplicate_times ts tol).
        \<exists>a<i. a \<notin> set (find_duplicate_times ts tol) \<and> ts ! i \<le> ts ! a + tol) \<and>
     find_duplicate_times (kept_times ts tol) tol = []"
proof -
  have "\<forall>i<length ts. (i = 0 \<or> ts ! (i - 1) + tol < ts ! i) \<longrightarrow> i \<notin> set (find_duplicate_times ts tol)"
    using dup_runs_chain_start[OF assms, of 0 _ tol] by (simp add: find_duplicate_times_runs)
  moreover have "\<forall>i\<in>set (find_duplicate_times ts tol).
        \<exists>a<i. a \<notin> set (find_duplicate_times ts tol) \<and> ts ! i \<le> ts ! a + tol"
    using dup_runs_anchor[of _ ts tol 0] unfolding find_duplicate_times_runs by blast
  ultimately show ?thesis
    using kept_times_subseq find_duplicate_times_idem by blast
qed

text \<open>Witness for claim C9, at the scenario of the specification.\<close>

theorem find_duplicate_times_kept_witness:
  "sorted [100, 103, 250 :: int] \<and> kept_times [100, 103, 250] 5 = [100, 250] \<and>
   subseq (kept_times [100, 103, 250] 5) [100, 103, 250] \<and>
   2 \<notin> set (find_duplicate_times [100, 103, 250] 5) \<and>
   1 \<in> set (find_duplicate_times [100, 103, 250] 5) \<and>
   find_duplicate_times (kept_times [100, 103, 250] 5) 5 = []"
proof -
  have s: "sorted [100, 103, 250 :: int]" by simp
  have a: "find_duplicate_times [100, 103, 250] 5 = [1]" by code_simp
  have k: "kept_times [100, 103, 250] 5 = [100, 250]" by code_simp
  from find_duplicate_times_kept[OF s, of 5] s a k show ?thesis by simp
qed




section \<open>Properties of \<open>get_time_chunks\<close>\<close>

lemma time_chunks_loop_total:
  "0 < chunk_size \<Longrightarrow>
   \<exists>out. time_chunks_loop N chunk_size padding pos acc = Some (acc @ out) \<and>
         tiles out pos N \<and> list_all (padding_clipped N) out"
proof (induction "nat (N - pos)" arbitrary: pos acc rule: less_induct)
  case less
  show ?case
  proof (cases "pos < N")
    case False
    then show ?thesis by (subst time_chunks_loop.simps) simp
  next
    case True
    define e where "e = (if pos + chunk_size > N then N else pos + chunk_size)"
    define c where "c = TimeChunk_init pos e (min padding pos) (min padding (N - e))"
    have e: "pos < e" "e \<le> N" using True less(2) by (auto simp: e_def)
    then have "nat (N - e) < nat (N - pos)" by simp
    from less(1)[OF this less(2), of "acc @ [c]"] obtain out where
      out: "time_chunks_loop N chunk_size padding e (acc @ [c]) = Some ((acc @ [c]) @ out)"
        "tiles out e N" "list_all (padding_clipped N) out"
      by blast
    have step: "time_chunks_loop N chunk_size padding pos acc =
        time_chunks_loop N chunk_size padding e (acc @ [c])"
      using True by (subst time_chunks_loop.simps) (simp add: Let_def e_def c_def)
    have "tiles (c # out) pos N"
      using out(2) e by (simp add: c_def TimeChunk_init_def)
    moreover have "padding_clipped N c"
      by (simp add: padding_clipped_def c_def TimeChunk_init_def)
    ultimately show ?thesis
      using step out(1,3) by (intro exI[of _ "c # out"]) simp
  qed
qed

text \<open>With a chunk size that is not positive the loop variable never reaches \<open>N\<close>.\<close>

lemma time_chunks_loop_diverges:
  assumes "time_chunks_loop N chunk_size padding pos acc = Some y"
  shows "\<not> (chunk_size \<le> 0 \<and> pos < N)"
proof (rule time_chunks_loop.raw_induct
    [where P = "\<lambda>N chunk_size padding pos acc y. \<not> (chunk_size \<le> 0 \<and> pos < N)", OF _ assms])
  fix f :: "int \<Rightarrow> int \<Rightarrow> int \<Rightarrow> int \<Rightarrow> TimeChunk list \<Rightarrow> TimeChunk list option"
    and N chunk_size padding pos :: int and acc y :: "TimeChunk list"
  assume IH: "\<And>N chunk_size padding pos acc y.
      f N chunk_size padding pos acc = Some y \<Longrightarrow> \<not> (chunk_size \<le> 0 \<and> pos < N)"
  assume body: "(if pos < N then
        (let e0 = pos + chunk_size;
             e = (if e0 > N then N else e0);
             pl = min padding pos;
             pr = min padding (N - e)
         in f N chunk_size padding e (acc @ [TimeChunk_init pos e pl pr]))
      else Some acc) = Some y"
  show "\<not> (chunk_size \<le> 0 \<and> pos < N)"
  proof
    assume h: "chunk_size \<le> 0 \<and> pos < N"
    then have "f N chunk_size padding (pos + chunk_size)
       (acc @ [TimeChunk_init pos (pos + chunk_size) (min padding pos)
           (min padding (N - (pos + chunk_size)))]) = Some y"
      using body by (simp add: Let_def split: if_splits)
    from IH[OF this] h show False by simp
  qed
qed

lemma tiles_nth:
  "tiles cs a b \<Longrightarrow> k < length cs \<Longrightarrow>
   a \<le> start (cs ! k) \<and> start (cs ! k) < end_pos (cs ! k) \<and> end_pos (cs ! k) \<le> b"
proof (induction cs arbitrary: a k)
  case Nil
  then show ?case by simp
next
  case (Cons c cs)
  show ?case
  proof (cases k)
    case 0
    with Cons.prems show ?thesis by simp
  next
    case (Suc k')
    with Cons.prems have "tiles cs (end_pos c) b" "k' < length cs" by simp_all
    from Cons.IH[OF this] Cons.prems(1) Suc show ?thesis by simp
  qed
qed

lemma tiles_next:
  "tiles cs a b \<Longrightarrow> Suc k < length cs \<Longrightarrow> end_pos (cs ! k) = start (cs ! Suc k)"
proof (induction cs arbitrary: a k)
  case Nil
  then show ?case by simp
next
  case (Cons c cs)
  show ?case
  proof (cases k)
    case 0
    with Cons.prems show ?thesis by (cases cs) simp_all
  next
    case (Suc k')
    with Cons.prems Cons.IH[of "end_pos c" k'] show ?thesis by simp
  qed
qed

lemma tiles_cover:
  "tiles cs a b \<Longrightarrow> a \<le> g \<Longrightarrow> g < b \<Longrightarrow>
   \<exists>k<length cs. start (cs ! k) \<le> g \<and> g < end_pos (cs ! k)"
proof (induction cs arbitrary: a)
  case Nil
  then show ?case by simp
next
  case (Cons c cs)
  show ?case
  proof (cases "g < end_pos c")
    case True
    with Cons.prems show ?thesis by (intro exI[of _ 0]) simp
  next
    case False
    with Cons.prems have "tiles cs (end_pos c) b" "end_pos c \<le> g" by simp_all
    from Cons.IH[OF this Cons.prems(3)] obtain k where
      "k < length cs" "start (cs ! k) \<le> g \<and> g < end_pos (cs ! k)" by blast
    then show ?thesis by (intro exI[of _ "Suc k"]) simp
  qed
qed

lemma tiles_mono:
  "tiles cs a b \<Longrightarrow> j < k \<Longrightarrow> k < length cs \<Longrightarrow> end_pos (cs ! j) \<le> start (cs ! k)"
proof (induction cs arbitrary: a j k)
  case Nil
  then show ?case by simp
next
  case (Cons c cs)
  from Cons.prems obtain k' where k: "k = Suc k'" by (cases k) auto
  with Cons.prems have t: "tiles cs (end_pos c) b" and k': "k' < length cs" by simp_all
  show ?case
  proof (cases j)
    case 0
    with tiles_nth[OF t k'] k show ?thesis by simp
  next
    case (Suc j')
    with Cons.IH[OF t, of j' k'] Cons.prems k show ?thesis by simp
  qed
qed

lemma tiles_disjoint:
  assumes t: "tiles cs a b" and j: "j < length cs" and k: "k < length cs"
    and gj: "start (cs ! j) \<le> g \<and> g < end_pos (cs ! j)"
    and gk: "start (cs ! k) \<le> g \<and> g < end_pos (cs ! k)"
  shows "j = k"
proof (rule ccontr)
  assume "j \<noteq> k"
  then consider "j < k" | "k < j" by linarith
  then show False
  proof cases
    case 1
    from tiles_mono[OF t 1 k] gj gk show False by simp
  next
    case 2
    from tiles_mono[OF t 2 j] gj gk show False by simp
  qed
qed

text \<open>
  Claim C4 speaks of any sample count, chunk size and padding.  Counterexample: with one
  sample and chunk size 0 the loop runs forever (\<open>end = start + 0\<close>, so \<open>start\<close> stays 0
  and a chunk is appended in every round); the function returns no sequence at all.
\<close>

theorem get_time_chunks_never_returns: "get_time_chunks 1 0 0 = None"
  using time_chunks_loop_diverges[of 1 0 0 0 "[]"]
  by (cases "get_time_chunks 1 0 0") (auto simp: get_time_chunks_def)

text \<open>
  Claim C4, amended: for every sample count \<open>N\<close>, every padding and every positive chunk
  size, \<open>get_time_chunks\<close> returns, and the cores \<open>[start, end)\<close> of the chunks it returns
  are non-empty, each starts where the previous one ends, and they tile \<open>[0, N)\<close>: every
  position of \<open>[0, N)\<close> lies in the core of exactly one chunk.  The paddings are clipped:
  \<open>padding_left \<le> start\<close> and \<open>end + padding_right \<le> N\<close> for every chunk.
\<close>

theorem get_time_chunks_tiling:
  assumes "0 < chunk_size"
  shows "\<exists>chunks. get_time_chunks N chunk_size padding = Some chunks \<and>
     tiles chunks 0 N \<and>
     (\<forall>k. Suc k < length chunks \<longrightarrow> end_pos (chunks ! k) = start (chunks ! Suc k)) \<and>
     (\<forall>g. 0 \<le> g \<and> g < N \<longrightarrow>
        (\<exists>!k. k < length chunks \<and> start (chunks ! k) \<le> g \<and> g < end_pos (chunks ! k))) \<and>
     (\<forall>c\<in>set chunks. 0 \<le> start c \<and> start c < end_pos c \<and> end_pos c \<le> N \<and>
        padding_left c \<le> start c \<and> end_pos c + padding_right c \<le> N)"
proof -
  from time_chunks_loop_total[OF assms, of N padding 0 "[]"] obtain chunks where
    c: "get_time_chunks N chunk_size padding = Some chunks" "tiles chunks 0 N"
       "list_all (padding_clipped N) chunks"
    by (auto simp: get_time_chunks_def)
  have u: "\<exists>!k. k < length chunks \<and> start (chunks ! k) \<le> g \<and> g < end_pos (chunks ! k)"
    if "0 \<le> g \<and> g < N" for g
  proof -
    from tiles_cover[OF c(2), of g] that obtain k where
      k: "k < length chunks \<and> start (chunks ! k) \<le> g \<and> g < end_pos (chunks ! k)" by blast
    show ?thesis
    proof (rule ex1I[of _ k])
      show "k < length chunks \<and> start (chunks ! k) \<le> g \<and> g < end_pos (chunks ! k)" by (rule k)
    next
      fix j assume "j < length chunks \<and> start (chunks ! j) \<le> g \<and> g < end_pos (chunks ! j)"
      with k tiles_disjoint[OF c(2), of j k g] show "j = k" by blast
    qed
  qed
  have p: "0 \<le> start x \<and> start x < end_pos x \<and> end_pos x \<le> N \<and>
        padding_left x \<le> start x \<and> end_pos x + padding_right x \<le> N" if "x \<in> set chunks" for x
  proof -
    from that obtain k where k: "k < length chunks" "x = chunks ! k"
      by (auto simp: in_set_conv_nth)
    from tiles_nth[OF c(2) k(1)] k(2) c(3) that show ?thesis
      by (auto simp: list_all_iff padding_clipped_def)
  qed
  from c(1,2) tiles_next[OF c(2)] u p show ?thesis by blast
qed

text \<open>Witness for the amended claim C4: ten samples, chunk size 4, padding 2.\<close>

theorem get_time_chunks_tiling_witness:
  "(0::int) < 4 \<and>
   get_time_chunks 10 4 2 =
     Some [TimeChunk_init 0 4 0 2, TimeChunk_init 4 8 2 2, TimeChunk_init 8 10 2 0] \<and>
   tiles [TimeChunk_init 0 4 0 2, TimeChunk_init 4 8 2 2, TimeChunk_init 8 10 2 0] 0 10 \<and>
   list_all (padding_clipped 10) [TimeChunk_init 0 4 0 2, TimeChunk_init 4 8 2 2, TimeChunk_init 8 10 2 0]"
proof -
  have h: "(0::int) < 4" by simp
  have e: "get_time_chunks 10 4 2 =
     Some [TimeChunk_init 0 4 0 2, TimeChunk_init 4 8 2 2, TimeChunk_init 8 10 2 0]"
    by (simp add: get_time_chunks_def time_chunks_loop.simps Let_def)
  from get_time_chunks_tiling[OF h, of 10 2] e show ?thesis
    by (auto simp: list_all_iff padding_clipped_def TimeChunk_init_def)
qed

section \<open>Properties of the candidate scan\<close>

lemma fold_concat_lists: "fold f (concat xss) s = fold (fold f) xss s"
  by (induction xss arbitrary: s) simp_all

lemma scan_merges_flat:
  "scan_merges tst unit_ids p K =
   fold (scan_step tst unit_ids p) (pair_scan K)
     \<lparr>merges = Map.empty, test_calls = [], raised = None\<rparr>"
proof -
  have "fold (scan_step tst unit_ids p) (map (\<lambda>i2. (i1, i2)) xs) = fold (scan_body tst unit_ids p i1) xs"
    for i1 xs
  proof -
    have "(\<lambda>x. scan_step tst unit_ids p (i1, x)) = scan_body tst unit_ids p i1"
      by (intro ext) (simp add: scan_step_def)
    then show ?thesis by (simp add: fold_map comp_def)
  qed
  then show ?thesis
    by (simp add: scan_merges_def pair_scan_def fold_concat_lists fold_map comp_def)
qed

lemma set_pair_scan: "set (pair_scan K) = {(i1, i2). i2 < i1 \<and> i1 < K}"
  by (auto simp: pair_scan_def)

lemma pair_scan_Suc: "pair_scan (Suc K) = pair_scan K @ map (Pair K) (rev [0..<K])"
  by (simp add: pair_scan_def)


lemma scan_step_raised: "raised s \<noteq> None \<Longrightarrow> scan_step tst unit_ids p pr s = s"
  by (simp add: scan_step_def scan_body_def)


lemma scan_step_merges:
  "raised (scan_step tst unit_ids p pr s) = None \<Longrightarrow>
   merges (scan_step tst unit_ids p pr s) =
     (if passes tst p pr then (merges s)(unit_ids ! fst pr \<mapsto> record_of unit_ids p pr) else merges s)"
  by (auto simp: scan_step_def scan_body_def passes_def record_of_def split: sum.splits if_splits)

lemma scan_step_not_raised:
  "raised (scan_step tst unit_ids p pr s) = None \<Longrightarrow> raised s = None"
  by (auto simp: scan_step_def scan_body_def split: sum.splits if_splits)



lemma scan_fold_merges:
  "raised (fold (scan_step tst unit_ids p) ps s) = None \<Longrightarrow>
   merges (fold (scan_step tst unit_ids p) ps s) u =
     (let qs = filter (\<lambda>pr. unit_ids ! fst pr = u \<and> passes tst p pr) ps
      in if qs = [] then merges s u else Some (record_of unit_ids p (last qs)))"
proof (induction ps arbitrary: s rule: rev_induct)
  case Nil
  then show ?case by simp
next
  case (snoc pr ps)
  let ?s = "fold (scan_step tst unit_ids p) ps s"
  from snoc.prems have r: "raised (scan_step tst unit_ids p pr ?s) = None" by simp
  then have "raised ?s = None" by (rule scan_step_not_raised)
  note IH = snoc.IH[OF this]
  note m = scan_step_merges[OF r]
  let ?P = "\<lambda>pr. unit_ids ! fst pr = u \<and> passes tst p pr"
  have f: "fold (scan_step tst unit_ids p) (ps @ [pr]) s = scan_step tst unit_ids p pr ?s"
    by simp
  show ?case
  proof (cases "?P pr")
    case True
    then have "filter ?P (ps @ [pr]) = filter ?P ps @ [pr]" by simp
    moreover from True m have "merges (scan_step tst unit_ids p pr ?s) u = Some (record_of unit_ids p pr)"
      by simp
    ultimately show ?thesis unfolding f Let_def by simp
  next
    case False
    then have "filter ?P (ps @ [pr]) = filter ?P ps" by simp
    moreover from False m have "merges (scan_step tst unit_ids p pr ?s) u = merges ?s u"
      by (cases "passes tst p pr") simp_all
    ultimately show ?thesis unfolding f using IH by (simp only: Let_def)
  qed
qed

lemma filter_pair_scan_fst:
  "filter (\<lambda>pr. fst pr = i1 \<and> Q pr) (pair_scan K) =
   (if i1 < K then map (Pair i1) (filter (\<lambda>j. Q (i1, j)) (rev [0..<i1])) else [])"
proof (induction K)
  case 0
  show ?case by (simp add: pair_scan_def)
next
  case (Suc K)
  have m: "filter (\<lambda>pr. fst pr = i1 \<and> Q pr) (map (Pair K) xs) =
        (if K = i1 then map (Pair i1) (filter (\<lambda>j. Q (i1, j)) xs) else [])" for xs
    by (induction xs) auto
  show ?case
    unfolding pair_scan_Suc filter_append Suc.IH m by auto
qed

lemma last_filter_rev_upt:
  assumes "i2 < i1" "Q i2" "\<forall>j<i2. \<not> Q j"
  shows "filter Q (rev [0..<i1]) \<noteq> [] \<and> last (filter Q (rev [0..<i1])) = i2"
proof -
  from assms(1) obtain k where k: "i1 = i2 + k" "0 < k"
    by (auto simp: less_iff_Suc_add)
  have "[0..<i2 + k] = [0..<i2] @ [i2..<i2 + k]"
    by (rule upt_add_eq_append) simp
  moreover have "[i2..<i2 + k] = i2 # [Suc i2..<i2 + k]"
    using k(2) by (simp add: upt_conv_Cons)
  ultimately have "[0..<i1] = [0..<i2] @ i2 # [Suc i2..<i1]"
    using k(1) by simp
  moreover have "filter Q [0..<i2] = []" using assms(3) by (simp add: filter_empty_conv)
  ultimately have "filter Q [0..<i1] = i2 # filter Q [Suc i2..<i1]"
    using assms(2) by simp
  then show ?thesis by (simp add: rev_filter[symmetric])
qed



text \<open>
  Claim C1, amended.  The dictionary holds at most one record per source unit id, and
  each passing candidate overwrites the record of its source: in a scan that does not
  raise, the record retained for a source is that of the last passing pair of that
  source in scan order.  With distinct unit ids this is the passing pair with the
  lowest \<open>i2\<close>.
\<close>

theorem scan_merges_last_wins:
  "(raised (scan_merges tst unit_ids p K) = None \<longrightarrow>
      merges (scan_merges tst unit_ids p K) u =
        (let qs = filter (\<lambda>pr. unit_ids ! fst pr = u \<and> passes tst p pr) (pair_scan K)
         in if qs = [] then None else Some (record_of unit_ids p (last qs)))) \<and>
   (raised (scan_merges tst unit_ids p K) = None \<and> distinct unit_ids \<and> K \<le> length unit_ids \<and>
    i2 < i1 \<and> i1 < K \<and> passes tst p (i1, i2) \<and> (\<forall>j<i2. \<not> passes tst p (i1, j)) \<longrightarrow>
      merges (scan_merges tst unit_ids p K) (unit_ids ! i1) = Some (record_of unit_ids p (i1, i2)))"
proof (intro conjI impI)
  assume r: "raised (scan_merges tst unit_ids p K) = None"
  show "merges (scan_merges tst unit_ids p K) u =
        (let qs = filter (\<lambda>pr. unit_ids ! fst pr = u \<and> passes tst p pr) (pair_scan K)
         in if qs = [] then None else Some (record_of unit_ids p (last qs)))"
    using scan_fold_merges[of tst unit_ids p "pair_scan K"
        "\<lparr>merges = Map.empty, test_calls = [], raised = None\<rparr>" u] r
    unfolding scan_merges_flat by (simp add: Let_def)
next
  assume h: "raised (scan_merges tst unit_ids p K) = None \<and> distinct unit_ids \<and> K \<le> length unit_ids \<and>
    i2 < i1 \<and> i1 < K \<and> passes tst p (i1, i2) \<and> (\<forall>j<i2. \<not> passes tst p (i1, j))"
  let ?u = "unit_ids ! i1"
  have "filter (\<lambda>pr. unit_ids ! fst pr = ?u \<and> passes tst p pr) (pair_scan K) =
        filter (\<lambda>pr. fst pr = i1 \<and> passes tst p pr) (pair_scan K)"
  proof (rule filter_cong[OF refl])
    fix pr assume "pr \<in> set (pair_scan K)"
    then have "fst pr < K" by (auto simp: set_pair_scan)
    with h show "(unit_ids ! fst pr = ?u \<and> passes tst p pr) = (fst pr = i1 \<and> passes tst p pr)"
      by (auto simp: nth_eq_iff_index_eq)
  qed
  also have "\<dots> = map (Pair i1) (filter (\<lambda>j. passes tst p (i1, j)) (rev [0..<i1]))"
    using h by (simp add: filter_pair_scan_fst)
  finally have q: "filter (\<lambda>pr. unit_ids ! fst pr = ?u \<and> passes tst p pr) (pair_scan K) =
      map (Pair i1) (filter (\<lambda>j. passes tst p (i1, j)) (rev [0..<i1]))" .
  from h last_filter_rev_upt[of i2 i1 "\<lambda>j. passes tst p (i1, j)"]
  have l: "filter (\<lambda>j. passes tst p (i1, j)) (rev [0..<i1]) \<noteq> []"
      "last (filter (\<lambda>j. passes tst p (i1, j)) (rev [0..<i1])) = i2" by simp_all
  have "merges (scan_merges tst unit_ids p K) ?u =
        (let qs = filter (\<lambda>pr. unit_ids ! fst pr = ?u \<and> passes tst p pr) (pair_scan K)
         in if qs = [] then None else Some (record_of unit_ids p (last qs)))"
    using scan_fold_merges[of tst unit_ids p "pair_scan K"
        "\<lparr>merges = Map.empty, test_calls = [], raised = None\<rparr>" ?u] h
    unfolding scan_merges_flat by (simp add: Let_def)
  with l show "merges (scan_merges tst unit_ids p K) ?u = Some (record_of unit_ids p (i1, i2))"
    unfolding q Let_def by (simp add: last_map)
qed

lemma peaks_alike:
  "peaks_of (rectify 1 templates_alike) =
     \<lparr>pk_channel = [0, 0, 0], pk_values = [[5], [5], [5]], pk_times = [[1], [1], [1]]\<rparr>"
  by code_simp

lemma peaks_mixed:
  "peaks_of (rectify 1 templates_mixed) =
     \<lparr>pk_channel = [0, 1, 0], pk_values = [[6, 4], [1, 6], [6, 4]],
      pk_times = [[1, 1], [1, 1], [2, 2]]\<rparr>"
  by code_simp

text \<open>
  Claim C1 says that the first passing candidate of a source is retained.
  Counterexample: with three like units and a test that always succeeds, the pairs
  \<open>(2, 1)\<close> and \<open>(2, 0)\<close> both pass, in this order, for the source unit 3; the record
  retained has target unit 1 (from the later pair \<open>(2, 0)\<close>), not unit 2.
\<close>

theorem scan_merges_overwrites:
  "raised (scan_merges always_merge [1, 2, 3] (peaks_of (rectify 1 templates_alike)) 3) = None \<and>
   test_calls (scan_merges always_merge [1, 2, 3] (peaks_of (rectify 1 templates_alike)) 3) =
     [(1, 0), (2, 1), (2, 0)] \<and>
   merges (scan_merges always_merge [1, 2, 3] (peaks_of (rectify 1 templates_alike)) 3) 3 =
     Some \<lparr>unit_id1 = 3, unit_id2 = 1, offset = 0\<rparr>"
  by code_simp

text \<open>Witness for the amended claim C1, at the input of the counterexample.\<close>

theorem scan_merges_last_wins_witness:
  "raised (scan_merges always_merge [1, 2, 3] (peaks_of (rectify 1 templates_alike)) 3) = None \<and>
   distinct [1, 2, 3 :: int] \<and> (3::nat) \<le> length [1, 2, 3 :: int] \<and> (0::nat) < 2 \<and> (2::nat) < 3 \<and>
   passes always_merge (peaks_of (rectify 1 templates_alike)) (2, 0) \<and>
   passes always_merge (peaks_of (rectify 1 templates_alike)) (2, 1) \<and>
   merges (scan_merges always_merge [1, 2, 3] (peaks_of (rectify 1 templates_alike)) 3) ([1, 2, 3] ! 2) =
     Some (record_of [1, 2, 3] (peaks_of (rectify 1 templates_alike)) (2, 0))"
proof -
  have r: "raised (scan_merges always_merge [1, 2, 3] (peaks_of (rectify 1 templates_alike)) 3) = None"
    by code_simp
  have p0: "passes always_merge (peaks_of (rectify 1 templates_alike)) (2, 0)" by code_simp
  have p1: "passes always_merge (peaks_of (rectify 1 templates_alike)) (2, 1)" by code_simp
  have h: "raised (scan_merges always_merge [1, 2, 3] (peaks_of (rectify 1 templates_alike)) 3) = None \<and>
    distinct [1, 2, 3 :: int] \<and> 3 \<le> length [1, 2, 3 :: int] \<and>
    (0::nat) < 2 \<and> (2::nat) < 3 \<and> passes always_merge (peaks_of (rectify 1 templates_alike)) (2, 0) \<and>
    (\<forall>j<0. \<not> passes always_merge (peaks_of (rectify 1 templates_alike)) (2, j))"
    using r p0 by simp
  have "merges (scan_merges always_merge [1, 2, 3] (peaks_of (rectify 1 templates_alike)) 3) ([1, 2, 3] ! 2) =
     Some (record_of [1, 2, 3] (peaks_of (rectify 1 templates_alike)) (2, 0))"
    using conjunct2[OF scan_merges_last_wins[of always_merge "[1, 2, 3]"
        "peaks_of (rectify 1 templates_alike)" 3 _ 0 2]] h by blast
  with r p0 p1 show ?thesis by simp
qed

section \<open>Properties of the application of merges\<close>




















section \<open>Properties of the merge test\<close>

lemma max_int_list_Max:
  assumes "xs \<noteq> []"
  shows "max_int_list xs = Max (set xs)"
proof (cases xs)
  case Nil
  with assms show ?thesis by simp
next
  case (Cons a list)
  have "Max (set (a # list)) = fold max list a" by (rule Max.set_eq_fold)
  with Cons show ?thesis by (simp add: max_int_list_def)
qed

lemma test_merge_stacked:
  assumes "dim1 snippets2 = dim1 snippets1" and "dim2 snippets2 = dim2 snippets1"
  shows "test_merge pca isosplit snippets1 snippets2 =
     (case pca (stacked snippets1 snippets2) 12 of
        Inl e \<Rightarrow> Inl e
      | Inr features0 \<Rightarrow>
         (case isosplit (transpose2 features0) of
            Inl e \<Rightarrow> Inl e
          | Inr labels0 \<Rightarrow> if labels0 = [] then Inl ValueError else Inr (max_int_list labels0 = 1)))"
  using assms
  by (simp add: test_merge_def reshape2_def concatenate0_def stacked_def Let_def mult.assoc)

text \<open>
  Claim C7 says that \<open>test_merge\<close> answers false when the batches hold fewer samples
  than the 12 components.  Counterexample: on two batches of one snippet each,
  \<open>test_merge\<close> raises the error of a reduction that refuses the input, and answers
  true with a reduction that accepts it and a clustering that finds one cluster; in
  neither case does it answer false.
\<close>

theorem test_merge_too_few_samples:
  "dim0 one_snippet + dim0 one_snippet < 12 \<and>
   test_merge pca_strict one_cluster one_snippet one_snippet = Inl ValueError \<and>
   test_merge pca_lenient one_cluster one_snippet one_snippet = Inr True"
  by code_simp

text \<open>
  Claim C7, amended.  \<open>test_merge\<close> has no guard of its own.  For batches of one
  waveform shape: an error of the reduction of the stacked batches to 12 components is
  the result of \<open>test_merge\<close>; so is an error of the clustering of the transposed
  features; an empty label array makes the maximum raise; and otherwise the result is
  true if and only if the maximum label equals 1.
\<close>

theorem test_merge_propagates:
  assumes "dim1 snippets2 = dim1 snippets1" and "dim2 snippets2 = dim2 snippets1"
  shows "(pca (stacked snippets1 snippets2) 12 = Inl e \<longrightarrow>
            test_merge pca isosplit snippets1 snippets2 = Inl e) \<and>
         (pca (stacked snippets1 snippets2) 12 = Inr features0 \<and>
          isosplit (transpose2 features0) = Inl e \<longrightarrow>
            test_merge pca isosplit snippets1 snippets2 = Inl e) \<and>
         (pca (stacked snippets1 snippets2) 12 = Inr features0 \<and>
          isosplit (transpose2 features0) = Inr [] \<longrightarrow>
            test_merge pca isosplit snippets1 snippets2 = Inl ValueError) \<and>
         (pca (stacked snippets1 snippets2) 12 = Inr features0 \<and>
          isosplit (transpose2 features0) = Inr labels0 \<and> labels0 \<noteq> [] \<longrightarrow>
            test_merge pca isosplit snippets1 snippets2 = Inr (Max (set labels0) = 1))"
  unfolding test_merge_stacked[OF assms]
  by (auto simp: max_int_list_Max)

text \<open>Witness for the amended claim C7: an error that is passed on, and a normal return.\<close>

theorem test_merge_propagates_witness:
  "dim1 one_snippet = dim1 one_snippet \<and> dim2 one_snippet = dim2 one_snippet \<and>
   pca_strict (stacked one_snippet one_snippet) 12 = Inl ValueError \<and>
   test_merge pca_strict one_cluster one_snippet one_snippet = Inl ValueError \<and>
   pca_lenient (stacked one_snippet one_snippet) 12 = Inr (stacked one_snippet one_snippet) \<and>
   one_cluster (transpose2 (stacked one_snippet one_snippet)) = Inr [1, 1] \<and>
   test_merge pca_lenient one_cluster one_snippet one_snippet = Inr (Max (set [1, 1]) = (1::int))"
proof -
  have a: "pca_strict (stacked one_snippet one_snippet) 12 = Inl ValueError" by code_simp
  have b: "pca_lenient (stacked one_snippet one_snippet) 12 = Inr (stacked one_snippet one_snippet)"
    by (simp add: pca_lenient_def)
  have c: "one_cluster (transpose2 (stacked one_snippet one_snippet)) = Inr [1, 1]" by code_simp
  have 1: "test_merge pca_strict one_cluster one_snippet one_snippet = Inl ValueError"
    using test_merge_propagates[where ?snippets1.0 = one_snippet and ?snippets2.0 = one_snippet
        and pca = pca_strict and e = ValueError and isosplit = one_cluster] a
    by simp
  have 2: "test_merge pca_lenient one_cluster one_snippet one_snippet = Inr (Max (set [1, 1]) = (1::int))"
    using test_merge_propagates[where ?snippets1.0 = one_snippet and ?snippets2.0 = one_snippet
        and pca = pca_lenient and isosplit = one_cluster
        and ?features0.0 = "stacked one_snippet one_snippet" and ?labels0.0 = "[1, 1]"] b c
    by simp
  from a b c 1 2 show ?thesis by simp
qed
section \<open>Properties of the chunk loop\<close>


lemma argsort_length: "length (argsort xs) = length xs"
  by (simp add: argsort_def)













end
